theory Spec2Isabelle
  imports Complex_Main "HOL-Library.Multiset"
begin

section \<open>Numbers, vectors and outcomes\<close>

text \<open>
  The planner of \<^verbatim>\<open>adarrt.py\<close> computes with numpy arrays of 64-bit floats. The
  embedding idealises them: a number is a real or the value \<open>NaN\<close>; rounding, overflow
  and the infinities are left out, so the arithmetic of numbers other than \<open>NaN\<close> is
  exact here and is not in the program. \<open>NaN\<close> is kept because the program can produce
  it from ordinary inputs: numpy's division of \<open>0.0\<close> by \<open>0.0\<close> warns and yields
  \<open>nan\<close>, it does not raise. Every operation with a \<open>NaN\<close> operand yields \<open>NaN\<close> and
  every comparison with one is false. The only division of the program divides the
  components of a vector by the vector's own norm. In exact arithmetic that norm is zero
  for the zero vector only, and the division by zero modelled here is that of zero by
  zero; in doubles the squares of very small components underflow and those of very
  large ones overflow, and numpy then yields infinities, which the model does not have.
  The statements below say which node is chosen, which operations produce a state and
  how the heap changes; none of them states the value of a rounded result.
\<close>

datatype fl = Fin real | NaN

fun fadd :: "fl \<Rightarrow> fl \<Rightarrow> fl" where
  "fadd (Fin a) (Fin b) = Fin (a + b)"
| "fadd _ _ = NaN"

fun fsub :: "fl \<Rightarrow> fl \<Rightarrow> fl" where
  "fsub (Fin a) (Fin b) = Fin (a - b)"
| "fsub _ _ = NaN"

fun fmul :: "fl \<Rightarrow> fl \<Rightarrow> fl" where
  "fmul (Fin a) (Fin b) = Fin (a * b)"
| "fmul _ _ = NaN"

fun fdiv :: "fl \<Rightarrow> fl \<Rightarrow> fl" where
  "fdiv (Fin a) (Fin b) = (if b = 0 then NaN else Fin (a / b))"
| "fdiv _ _ = NaN"

fun fsqrt :: "fl \<Rightarrow> fl" where
  "fsqrt (Fin a) = (if a < 0 then NaN else Fin (sqrt a))"
| "fsqrt NaN = NaN"

fun fless :: "fl \<Rightarrow> fl \<Rightarrow> bool" where
  "fless (Fin a) (Fin b) = (a < b)"
| "fless _ _ = False"

type_synonym vec = "fl list"

text \<open>
  A Python call returns a value, raises, or does not come back. The only exception the
  planner's own arithmetic and truth tests raise is numpy's \<open>ValueError\<close>.
\<close>

datatype error = ValueError

datatype 'a outcome = Return 'a | Raises error | Diverges

definition obind :: "'a outcome \<Rightarrow> ('a \<Rightarrow> 'b outcome) \<Rightarrow> 'b outcome" where
  "obind m f = (case m of Return x \<Rightarrow> f x | Raises e \<Rightarrow> Raises e | Diverges \<Rightarrow> Diverges)"

text \<open>
  Elementwise arithmetic on two one-dimensional arrays follows numpy's broadcasting:
  equal lengths combine pointwise, an array of one element is stretched, any other pair
  of lengths raises \<open>ValueError\<close>.
\<close>

definition broadcast :: "(fl \<Rightarrow> fl \<Rightarrow> fl) \<Rightarrow> vec \<Rightarrow> vec \<Rightarrow> vec outcome" where
  "broadcast f xs ys =
     (if length xs = length ys then Return (map2 f xs ys)
      else if length xs = 1 then Return (map (f (hd xs)) ys)
      else if length ys = 1 then Return (map (\<lambda>x. f x (hd ys)) xs)
      else Raises ValueError)"

text \<open>\<^verbatim>\<open>np.linalg.norm\<close> of a one-dimensional array: the root of the sum of squares.\<close>

definition fnorm :: "vec \<Rightarrow> fl" where
  "fnorm v = fsqrt (foldr fadd (map (\<lambda>x. fmul x x) v) (Fin 0))"

text \<open>The Euclidean distance \<^verbatim>\<open>np.linalg.norm(u - v)\<close> the planner measures everywhere.\<close>

definition distance :: "vec \<Rightarrow> vec \<Rightarrow> fl outcome" where
  "distance u v = obind (broadcast fsub u v) (\<lambda>d. Return (fnorm d))"

section \<open>Nodes and the heap\<close>

text \<open>
  \<^verbatim>\<open>AdaRRT.Node\<close> objects refer to each other in both directions and are mutated in
  place (\<^verbatim>\<open>children.append\<close>), so nodes live in an explicit heap: a list of node
  records, a reference being an index into it. A new object takes the next free index.
\<close>

record node =
  state :: vec
  parent :: "nat option"
  children :: "nat list"

type_synonym heap = "node list"

definition new_Node :: "vec \<Rightarrow> nat option \<Rightarrow> heap \<Rightarrow> nat \<times> heap" where
  "new_Node s p h = (length h, h @ [\<lparr>state = s, parent = p, children = []\<rparr>])"

definition add_child :: "heap \<Rightarrow> nat \<Rightarrow> vec \<Rightarrow> nat \<times> heap" where
  "add_child h self s =
     (let (child, h1) = new_Node s (Some self) h
      in (child, h1[self := (h1 ! self)\<lparr>children := children (h1 ! self) @ [child]\<rparr>]))"

text \<open>
  \<^verbatim>\<open>Node.__iter__\<close>: the breadth-first generator. The queue loop ends only if the
  structure below the start node is finite, so it is a partial function: \<open>None\<close> stands
  for a traversal that never ends. The result lists the nodes in the order yielded.
\<close>

partial_function (option) node_iter :: "heap \<Rightarrow> nat list \<Rightarrow> nat list option" where
  "node_iter h nodelist =
     (case nodelist of
        [] \<Rightarrow> Some []
      | n # rest \<Rightarrow>
          Option.bind (node_iter h (rest @ children (h ! n))) (\<lambda>ys. Some (n # ys)))"

section \<open>The planner\<close>

record planner =
  start :: nat
  goal :: nat
  joint_lower_limits :: "real list"
  joint_upper_limits :: "real list"
  ada_collision_constraint :: "(vec \<Rightarrow> bool) option"
  step_size :: real
  goal_precision :: real
  max_iter :: int

definition default_lower_limits :: "real list" where
  "default_lower_limits = [-3.14, 1.57, 0.33, -3.14, 0, 0]"

definition default_upper_limits :: "real list" where
  "default_upper_limits = [3.14, 5.00, 5.00, 3.14, 3.14, 3.14]"

text \<open>
  The bounds arguments of \<^verbatim>\<open>__init__\<close> may be \<^verbatim>\<open>None\<close>, a Python list or a numpy
  array; \<^verbatim>\<open>x or default\<close> tests the truth value of \<open>x\<close>. A list is true when it is not
  empty; an array of one element has the truth value of that element, an empty array is
  false, and an array of more than one element raises \<open>ValueError\<close>.
\<close>

datatype pyarg = PyNone | PyList "real list" | NdArray "real list"

fun truth :: "pyarg \<Rightarrow> bool outcome" where
  "truth PyNone = Return False"
| "truth (PyList xs) = Return (xs \<noteq> [])"
| "truth (NdArray []) = Return False"
| "truth (NdArray [x]) = Return (x \<noteq> 0)"
| "truth (NdArray (x # y # zs)) = Raises ValueError"

fun elements :: "pyarg \<Rightarrow> real list" where
  "elements PyNone = []"
| "elements (PyList xs) = xs"
| "elements (NdArray xs) = xs"

definition or_default :: "pyarg \<Rightarrow> real list \<Rightarrow> real list outcome" where
  "or_default x d = obind (truth x) (\<lambda>t. Return (if t then elements x else d))"

definition init ::
  "real list \<Rightarrow> real list \<Rightarrow> pyarg \<Rightarrow> pyarg \<Rightarrow> (vec \<Rightarrow> bool) option \<Rightarrow> real \<Rightarrow> real \<Rightarrow> int
     \<Rightarrow> (planner \<times> heap) outcome" where
  "init start_state goal_state lower upper constraint step precision iters =
     (let (s, h1) = new_Node (map Fin start_state) None [];
          (g, h2) = new_Node (map Fin goal_state) None h1
      in obind (or_default lower default_lower_limits) (\<lambda>lo.
         obind (or_default upper default_upper_limits) (\<lambda>hi.
           Return (\<lparr>start = s, goal = g, joint_lower_limits = lo, joint_upper_limits = hi,
                    ada_collision_constraint = constraint, step_size = step,
                    goal_precision = precision, max_iter = iters\<rparr>, h2))))"

subsection \<open>Sampling\<close>

text \<open>
  The global random generator is a stream of numbers of \<open>[0, 1)\<close> and a position in it.
  \<^verbatim>\<open>np.random.uniform(low, high)\<close> is \<open>low + (high - low) * u\<close> for the next number
  \<open>u\<close> of the stream.
\<close>

type_synonym rng = "nat \<Rightarrow> real"

definition uniform :: "real \<Rightarrow> real \<Rightarrow> rng \<Rightarrow> nat \<Rightarrow> real \<times> nat" where
  "uniform low high r pos = (low + (high - low) * r pos, Suc pos)"

fun uniforms :: "(real \<times> real) list \<Rightarrow> rng \<Rightarrow> nat \<Rightarrow> real list \<times> nat" where
  "uniforms [] r pos = ([], pos)"
| "uniforms ((low, high) # bs) r pos =
     (let (x, pos1) = uniform low high r pos;
          (xs, pos2) = uniforms bs r pos1
      in (x # xs, pos2))"

definition get_random_sample :: "planner \<Rightarrow> rng \<Rightarrow> nat \<Rightarrow> vec \<times> nat" where
  "get_random_sample p r pos =
     (let (xs, pos1) = uniforms (zip (joint_lower_limits p) (joint_upper_limits p)) r pos
      in (map Fin xs, pos1))"

definition get_random_sample_near_goal ::
  "planner \<Rightarrow> heap \<Rightarrow> rng \<Rightarrow> nat \<Rightarrow> vec outcome \<times> nat" where
  "get_random_sample_near_goal p h r pos =
     (let g = state (h ! goal p);
          (xs, pos1) = uniforms (replicate (length g) (-0.05, 0.05)) r pos
      in (broadcast fadd g (map Fin xs), pos1))"

subsection \<open>Nearest neighbour\<close>

text \<open>
  Python's \<^verbatim>\<open>min(iterable, key=f)\<close>: the first element is the best so far, and a later
  element replaces it only when its key is strictly smaller. The key may raise.
\<close>

fun min_loop :: "('a \<Rightarrow> fl outcome) \<Rightarrow> 'a \<Rightarrow> fl \<Rightarrow> 'a list \<Rightarrow> 'a outcome" where
  "min_loop key best bk [] = Return best"
| "min_loop key best bk (y # ys) =
     obind (key y) (\<lambda>k. if fless k bk then min_loop key y k ys else min_loop key best bk ys)"

fun min_key :: "('a \<Rightarrow> fl outcome) \<Rightarrow> 'a list \<Rightarrow> 'a outcome" where
  "min_key key [] = Raises ValueError"
| "min_key key (x # xs) = obind (key x) (\<lambda>k. min_loop key x k xs)"

text \<open>
  The traversal is consumed as a whole before the minimum is taken. The generator only
  reads the heap, so this differs from the lazy original only where the traversal does
  not end.
\<close>

definition get_nearest_neighbor :: "planner \<Rightarrow> heap \<Rightarrow> vec \<Rightarrow> nat outcome" where
  "get_nearest_neighbor p h sample =
     (case node_iter h [start p] of
        None \<Rightarrow> Diverges
      | Some nodes \<Rightarrow> min_key (\<lambda>n. distance (state (h ! n)) sample) nodes)"

subsection \<open>Extension, collision and completion\<close>

definition check_for_collision :: "planner \<Rightarrow> vec \<Rightarrow> bool" where
  "check_for_collision p sample =
     (case ada_collision_constraint p of
        None \<Rightarrow> False
      | Some is_satisfied \<Rightarrow> \<not> is_satisfied sample)"

definition extend_sample :: "planner \<Rightarrow> heap \<Rightarrow> vec \<Rightarrow> nat \<Rightarrow> nat option outcome \<times> heap" where
  "extend_sample p h sample neighbor =
     (case broadcast fsub sample (state (h ! neighbor)) of
        Raises e \<Rightarrow> (Raises e, h)
      | Diverges \<Rightarrow> (Diverges, h)
      | Return direction0 \<Rightarrow>
          (let direction = map (\<lambda>x. fdiv x (fnorm direction0)) direction0
           in case broadcast fadd (state (h ! neighbor))
                     (map (\<lambda>x. fmul x (Fin (step_size p))) direction) of
                Raises e \<Rightarrow> (Raises e, h)
              | Diverges \<Rightarrow> (Diverges, h)
              | Return new_node \<Rightarrow>
                  if \<not> check_for_collision p new_node
                  then (let (child, h') = add_child h neighbor new_node
                        in (Return (Some child), h'))
                  else (Return None, h)))"

definition check_for_completion :: "planner \<Rightarrow> heap \<Rightarrow> nat \<Rightarrow> bool outcome" where
  "check_for_completion p h n =
     obind (distance (state (h ! n)) (state (h ! goal p)))
       (\<lambda>d. Return (fless d (Fin (goal_precision p))))"

subsection \<open>Path reconstruction\<close>

text \<open>
  \<^verbatim>\<open>_trace_path_from_start\<close> follows \<^verbatim>\<open>parent\<close> until it is \<^verbatim>\<open>None\<close>, appending the
  states, and returns the list reversed. The loop ends only if the parent chain does.
\<close>

partial_function (option) trace_loop :: "heap \<Rightarrow> nat option \<Rightarrow> vec list \<Rightarrow> vec list option" where
  "trace_loop h nd path =
     (case nd of
        None \<Rightarrow> Some path
      | Some n \<Rightarrow> trace_loop h (parent (h ! n)) (path @ [state (h ! n)]))"

definition trace_path_from_start :: "planner \<Rightarrow> heap \<Rightarrow> nat option \<Rightarrow> vec list option" where
  "trace_path_from_start p h nd =
     map_option rev
       (trace_loop h (Some (case nd of None \<Rightarrow> goal p | Some n \<Rightarrow> n)) [])"

subsection \<open>The planning loop\<close>

text \<open>
  One pass of the body of the \<^verbatim>\<open>for\<close> loop of \<^verbatim>\<open>build\<close>. Its value is \<open>Some path\<close>
  when the body returns the path and \<open>None\<close> when the loop goes on.
\<close>

definition build_step ::
  "planner \<Rightarrow> rng \<Rightarrow> heap \<Rightarrow> nat \<Rightarrow> vec list option outcome \<times> heap \<times> nat" where
  "build_step p r h pos =
     (let (u, pos1) = uniform 0 1 r pos;
          (s, pos2) = (if u \<le> 0.2 then get_random_sample_near_goal p h r pos1
                       else (let (x, q) = get_random_sample p r pos1 in (Return x, q)))
      in case s of
           Raises e \<Rightarrow> (Raises e, h, pos2)
         | Diverges \<Rightarrow> (Diverges, h, pos2)
         | Return sample \<Rightarrow>
            (case get_nearest_neighbor p h sample of
               Raises e \<Rightarrow> (Raises e, h, pos2)
             | Diverges \<Rightarrow> (Diverges, h, pos2)
             | Return neighbor \<Rightarrow>
                (case extend_sample p h sample neighbor of
                   (Raises e, h') \<Rightarrow> (Raises e, h', pos2)
                 | (Diverges, h') \<Rightarrow> (Diverges, h', pos2)
                 | (Return None, h') \<Rightarrow> (Return None, h', pos2)
                 | (Return (Some new_node), h') \<Rightarrow>
                    (case check_for_completion p h' new_node of
                       Raises e \<Rightarrow> (Raises e, h', pos2)
                     | Diverges \<Rightarrow> (Diverges, h', pos2)
                     | Return False \<Rightarrow> (Return None, h', pos2)
                     | Return True \<Rightarrow>
                        (case trace_path_from_start p h' (Some new_node) of
                           None \<Rightarrow> (Diverges, h', pos2)
                         | Some path \<Rightarrow> (Return (Some path), h', pos2))))))"

text \<open>
  The loop over \<^verbatim>\<open>range(self.max_iter)\<close>. Beside the outcome it gives the final heap,
  the position reached in the random stream, and the number of passes made. Falling out
  of the loop, \<^verbatim>\<open>build\<close> prints a message and returns \<^verbatim>\<open>None\<close>.
\<close>

fun build_loop ::
  "planner \<Rightarrow> rng \<Rightarrow> nat \<Rightarrow> heap \<Rightarrow> nat \<Rightarrow> vec list option outcome \<times> heap \<times> nat \<times> nat" where
  "build_loop p r 0 h pos = (Return None, h, pos, 0)"
| "build_loop p r (Suc k) h pos =
     (case build_step p r h pos of
        (Return None, h', pos') \<Rightarrow>
          (let (res, h'', pos'', n) = build_loop p r k h' pos' in (res, h'', pos'', Suc n))
      | (res, h', pos') \<Rightarrow> (res, h', pos', 1))"

definition build ::
  "planner \<Rightarrow> rng \<Rightarrow> heap \<Rightarrow> nat \<Rightarrow> vec list option outcome \<times> heap \<times> nat \<times> nat" where
  "build p r h pos = build_loop p r (nat (max_iter p)) h pos"

section \<open>Notions used by the statements\<close>

text \<open>The heap \<^verbatim>\<open>__init__\<close> leaves behind: the start node, then the goal node.\<close>

definition init_heap :: "real list \<Rightarrow> real list \<Rightarrow> heap" where
  "init_heap start_state goal_state =
     [\<lparr>state = map Fin start_state, parent = None, children = []\<rparr>,
      \<lparr>state = map Fin goal_state, parent = None, children = []\<rparr>]"

definition multi_element :: "pyarg \<Rightarrow> bool" where
  "multi_element x = (case x of NdArray (a # b # zs) \<Rightarrow> True | _ \<Rightarrow> False)"

definition falsy :: "pyarg \<Rightarrow> bool" where
  "falsy x = (truth x = Return False)"

text \<open>A vector without \<open>NaN\<close>, and the Euclidean norm of a list of reals.\<close>

definition is_finite :: "vec \<Rightarrow> bool" where
  "is_finite v = (NaN \<notin> set v)"

definition rnorm :: "real list \<Rightarrow> real" where
  "rnorm a = sqrt (\<Sum>x\<leftarrow>a. x * x)"

text \<open>
  The candidate state \<^verbatim>\<open>_extend_sample\<close> computes from the neighbour's state \<open>x\<close>:
  \<^verbatim>\<open>x + (sample - x) / norm(sample - x) * step_size\<close>.
\<close>

definition candidate :: "real \<Rightarrow> vec \<Rightarrow> vec \<Rightarrow> vec outcome" where
  "candidate step x sample =
     obind (broadcast fsub sample x) (\<lambda>d.
       broadcast fadd x (map (\<lambda>t. fmul t (Fin step)) (map (\<lambda>t. fdiv t (fnorm d)) d)))"

text \<open>A planner for an arm of one joint, with start and goal at the origin; it serves the examples.\<close>

definition example_planner :: "(vec \<Rightarrow> bool) option \<Rightarrow> planner" where
  "example_planner c =
     \<lparr>start = 0, goal = 1, joint_lower_limits = [0], joint_upper_limits = [2],
      ada_collision_constraint = c, step_size = 1/4, goal_precision = 1, max_iter = 1\<rparr>"

text \<open>
  The shape of the heap the planner maintains: start and goal are distinct nodes, the
  start node has no parent, children are allocated after their parent and never are the
  goal node, the goal node has no children, and every other node has a parent allocated
  before it that is not the goal node.
\<close>

definition tree_inv :: "planner \<Rightarrow> heap \<Rightarrow> bool" where
  "tree_inv p h \<longleftrightarrow>
     start p < length h \<and> goal p < length h \<and> start p \<noteq> goal p \<and>
     parent (h ! start p) = None \<and>
     (\<forall>a<length h. \<forall>c\<in>set (children (h ! a)).
        a < c \<and> c < length h \<and> c \<noteq> goal p \<and> a \<noteq> goal p) \<and>
     (\<forall>c<length h. c \<noteq> start p \<longrightarrow> c \<noteq> goal p \<longrightarrow>
        (\<exists>a<c. parent (h ! c) = Some a \<and> a \<noteq> goal p))"

text \<open>
  The heaps the planner's operations can produce from \<open>h0\<close>: each step extends the
  nearest neighbour of some sample towards that sample.
\<close>

inductive reachable :: "planner \<Rightarrow> heap \<Rightarrow> heap \<Rightarrow> bool" for p :: planner and h0 :: heap where
  reach_init: "reachable p h0 h0"
| reach_extend:
    "reachable p h0 h \<Longrightarrow> get_nearest_neighbor p h sample = Return nb \<Longrightarrow>
     extend_sample p h sample nb = (res, h') \<Longrightarrow> reachable p h0 h'"

text \<open>A collision constraint that is never satisfied, and the example tree after one step.\<close>

definition reject_all :: "vec \<Rightarrow> bool" where
  "reject_all v = False"

definition example_tree :: heap where
  "example_tree =
     [\<lparr>state = [Fin 0], parent = None, children = [2]\<rparr>,
      \<lparr>state = [Fin 0], parent = None, children = []\<rparr>,
      \<lparr>state = [Fin (1 / 4)], parent = Some 0, children = []\<rparr>]"

text \<open>
  The parent-reference walk from a node: the node, its parent, and so on up to a node
  without parent. \<open>chain\<close> says that a list of nodes is such a walk.
\<close>

partial_function (option) parent_walk :: "heap \<Rightarrow> nat option \<Rightarrow> nat list option" where
  "parent_walk h nd =
     (case nd of
        None \<Rightarrow> Some []
      | Some n \<Rightarrow> Option.bind (parent_walk h (parent (h ! n))) (\<lambda>w. Some (n # w)))"

fun chain :: "heap \<Rightarrow> nat list \<Rightarrow> bool" where
  "chain h [] = True"
| "chain h [a] = (parent (h ! a) = None)"
| "chain h (a # b # w) = (parent (h ! a) = Some b \<and> chain h (b # w))"

text \<open>The sampling part of one pass of the loop of \<^verbatim>\<open>build\<close>.\<close>

definition draw_sample :: "planner \<Rightarrow> heap \<Rightarrow> rng \<Rightarrow> nat \<Rightarrow> vec outcome \<times> nat" where
  "draw_sample p h r pos =
     (let (u, pos1) = uniform 0 1 r pos
      in if u \<le> 0.2 then get_random_sample_near_goal p h r pos1
         else (let (x, q) = get_random_sample p r pos1 in (Return x, q)))"














section \<open>Outcomes and construction\<close>

lemma obind_simps [simp]:
  "obind (Return x) f = f x"
  "obind (Raises e) f = Raises e"
  "obind Diverges f = Diverges"
  by (simp_all add: obind_def)

lemma obind_eq_Return:
  "obind m f = Return y \<longleftrightarrow> (\<exists>x. m = Return x \<and> f x = Return y)"
  by (cases m) simp_all

lemma truth_cases:
  "truth x = (if multi_element x then Raises ValueError else Return (\<not> falsy x))"
  by (cases x rule: truth.cases) (simp_all add: multi_element_def falsy_def)

lemma or_default_eq:
  "or_default x d =
     (if multi_element x then Raises ValueError
      else Return (if falsy x then d else elements x))"
  by (simp add: or_default_def truth_cases)

lemma init_eq:
  "init s g lo hi c st pr mi =
     (if multi_element lo \<or> multi_element hi then Raises ValueError
      else Return (\<lparr>start = 0, goal = 1,
                    joint_lower_limits = (if falsy lo then default_lower_limits else elements lo),
                    joint_upper_limits = (if falsy hi then default_upper_limits else elements hi),
                    ada_collision_constraint = c, step_size = st,
                    goal_precision = pr, max_iter = mi\<rparr>, init_heap s g))"
  by (simp add: init_def new_Node_def or_default_eq init_heap_def)

text \<open>
  C10: \<^verbatim>\<open>__init__\<close> takes the class default for a bounds argument exactly when the
  argument is falsy, \<^verbatim>\<open>None\<close> and the empty list are falsy, and construction raises
  exactly when one of the two bounds arguments is a numpy array of more than one element.
\<close>

theorem init_limits_or:
  "falsy PyNone \<and> falsy (PyList []) \<and>
   (init s g lo hi c st pr mi = Raises ValueError \<longleftrightarrow> multi_element lo \<or> multi_element hi) \<and>
   (\<forall>p h. init s g lo hi c st pr mi = Return (p, h) \<longrightarrow>
      joint_lower_limits p = (if falsy lo then default_lower_limits else elements lo) \<and>
      joint_upper_limits p = (if falsy hi then default_upper_limits else elements hi))"
  by (auto simp add: init_eq falsy_def)

theorem init_limits_or_witness:
  "init [0] [1] (PyList []) (PyList [2]) None (1/4) 1 10 =
     Return (\<lparr>start = 0, goal = 1, joint_lower_limits = default_lower_limits,
              joint_upper_limits = [2], ada_collision_constraint = None, step_size = 1/4,
              goal_precision = 1, max_iter = 10\<rparr>, init_heap [0] [1]) \<and>
   init [0] [1] PyNone (NdArray [3, 4]) None (1/4) 1 10 = Raises ValueError \<and>
   init [0] [1] (NdArray [3, 4]) PyNone None (1/4) 1 10 = Raises ValueError"
  using init_limits_or [of "[0]" "[1]" "PyList []" "PyList [2]" None "1/4" 1 10]
    init_limits_or [of "[0]" "[1]" PyNone "NdArray [3, 4]" None "1/4" 1 10]
    init_limits_or [of "[0]" "[1]" "NdArray [3, 4]" PyNone None "1/4" 1 10]
  by (simp add: init_eq falsy_def multi_element_def)

section \<open>Vector arithmetic\<close>

lemma broadcast_same:
  "length xs = length ys \<Longrightarrow> broadcast f xs ys = Return (map2 f xs ys)"
  by (simp add: broadcast_def)

lemma is_finite_iff: "is_finite v \<longleftrightarrow> (\<exists>a. v = map Fin a)"
proof
  assume "is_finite v"
  then have "\<forall>x\<in>set v. \<exists>r. x = Fin r"
    unfolding is_finite_def by (metis fl.exhaust)
  then show "\<exists>a. v = map Fin a"
  proof (induction v)
    case Nil
    then show ?case by simp
  next
    case (Cons x v)
    then obtain r a where "x = Fin r" "v = map Fin a" by auto
    then have "x # v = map Fin (r # a)" by simp
    then show ?case by (rule exI)
  qed
next
  assume "\<exists>a. v = map Fin a"
  then show "is_finite v" by (auto simp: is_finite_def)
qed

lemma is_finite_map_Fin [simp]: "is_finite (map Fin a)"
  by (auto simp: is_finite_def)

lemma squares_Fin:
  "foldr fadd (map (\<lambda>x. fmul x x) (map Fin a)) (Fin 0) = Fin (\<Sum>x\<leftarrow>a. x * x)"
  by (induction a) simp_all

lemma squares_NaN:
  "NaN \<in> set v \<Longrightarrow> foldr fadd (map (\<lambda>x. fmul x x) v) (Fin 0) = NaN"
proof (induction v)
  case Nil
  then show ?case by simp
next
  case (Cons x v)
  show ?case
  proof (cases x)
    case (Fin r)
    with Cons have "foldr fadd (map (\<lambda>x. fmul x x) v) (Fin 0) = NaN" by simp
    with Fin show ?thesis by simp
  next
    case NaN
    then show ?thesis by simp
  qed
qed

lemma sum_squares_nonneg: "0 \<le> (\<Sum>x\<leftarrow>a. x * x)" for a :: "real list"
  by (induction a) simp_all

lemma fnorm_Fin: "fnorm (map Fin a) = Fin (rnorm a)"
  unfolding fnorm_def squares_Fin rnorm_def
  using sum_squares_nonneg [of a] by simp

lemma fnorm_NaN: "\<not> is_finite v \<Longrightarrow> fnorm v = NaN"
  by (simp add: fnorm_def squares_NaN is_finite_def)

lemma rnorm_zero_iff: "rnorm a = 0 \<longleftrightarrow> (\<forall>x\<in>set a. x = 0)"
proof -
  have "(\<Sum>x\<leftarrow>a. x * x) = 0 \<longleftrightarrow> (\<forall>x\<in>set a. x = 0)"
  proof (induction a)
    case Nil
    then show ?case by simp
  next
    case (Cons x a)
    have "x * x + (\<Sum>y\<leftarrow>a. y * y) = 0 \<longleftrightarrow> x * x = 0 \<and> (\<Sum>y\<leftarrow>a. y * y) = 0"
      using sum_squares_nonneg [of a] by (intro add_nonneg_eq_0_iff) simp_all
    with Cons show ?case by simp
  qed
  then show ?thesis by (simp add: rnorm_def)
qed

lemma fnorm_zero_iff: "fnorm v = Fin 0 \<longleftrightarrow> (\<forall>x\<in>set v. x = Fin 0)"
proof (cases "is_finite v")
  case True
  then obtain a where "v = map Fin a" by (auto simp: is_finite_iff)
  then show ?thesis by (auto simp: fnorm_Fin rnorm_zero_iff)
next
  case False
  then show ?thesis by (auto simp: fnorm_NaN is_finite_def)
qed

lemma map2_Fin:
  "map2 fadd (map Fin a) (map Fin b) = map Fin (map2 (+) a b)"
  "map2 fsub (map Fin a) (map Fin b) = map Fin (map2 (-) a b)"
  by (induction a arbitrary: b; case_tac b; simp)+

lemma map_fdiv_zero:
  "map (\<lambda>t. fdiv t (Fin 0)) (map Fin d) = replicate (length d) NaN"
  by (induction d) simp_all

lemma map_fmul_NaN:
  "map (\<lambda>t. fmul t c) (replicate n NaN) = replicate n NaN"
  by simp

lemma map2_fadd_NaN:
  "length x = n \<Longrightarrow> map2 fadd x (replicate n NaN) = replicate n NaN"
proof (induction x arbitrary: n)
  case Nil
  then show ?case by simp
next
  case (Cons a x)
  then obtain m where n: "n = Suc m" and m: "length x = m" by auto
  have "fadd a NaN = NaN" by (cases a) simp_all
  with Cons.IH [OF m] n show ?case by simp
qed

lemma candidate_degenerate:
  "candidate step (map Fin x) (map Fin x) = Return (replicate (length x) NaN)"
proof -
  have z: "rnorm (map2 (-) x x) = 0"
    by (auto simp: rnorm_zero_iff set_zip)
  have l: "length (map2 (-) x x) = length x" by simp
  show ?thesis
    by (simp only: candidate_def broadcast_same map2_Fin fnorm_Fin length_map obind_simps z
          map_fdiv_zero map_fmul_NaN l length_replicate map2_fadd_NaN length_zip min.idem simp_thms)
qed

section \<open>Heap updates and the extension step\<close>

lemma add_child_eq:
  "add_child h a s =
     (length h,
      (h @ [\<lparr>state = s, parent = Some a, children = []\<rparr>])
        [a := ((h @ [\<lparr>state = s, parent = Some a, children = []\<rparr>]) ! a)
                \<lparr>children := children ((h @ [\<lparr>state = s, parent = Some a, children = []\<rparr>]) ! a)
                              @ [length h]\<rparr>])"
  by (simp add: add_child_def new_Node_def)

lemma add_child_fst [simp]: "fst (add_child h a s) = length h"
  by (simp add: add_child_eq)

lemma add_child_length [simp]: "length (snd (add_child h a s)) = Suc (length h)"
  by (simp add: add_child_eq)

lemma add_child_new:
  "a < length h \<Longrightarrow>
     snd (add_child h a s) ! length h = \<lparr>state = s, parent = Some a, children = []\<rparr>"
  by (simp add: add_child_eq nth_append)

lemma add_child_old:
  "a < length h \<Longrightarrow> b < length h \<Longrightarrow>
     snd (add_child h a s) ! b =
       (if b = a then (h ! a)\<lparr>children := children (h ! a) @ [length h]\<rparr> else h ! b)"
  by (simp add: add_child_eq nth_append nth_list_update)

lemma add_child_state:
  "a < length h \<Longrightarrow> b < length h \<Longrightarrow> state (snd (add_child h a s) ! b) = state (h ! b)"
  by (simp add: add_child_old)

lemma add_child_parent:
  "a < length h \<Longrightarrow> b < length h \<Longrightarrow> parent (snd (add_child h a s) ! b) = parent (h ! b)"
  by (simp add: add_child_old)

lemma add_child_children:
  "a < length h \<Longrightarrow> b < length h \<Longrightarrow>
     children (snd (add_child h a s) ! b) =
       (if b = a then children (h ! a) @ [length h] else children (h ! b))"
  by (simp add: add_child_old)

lemma extend_sample_eq:
  "extend_sample p h sample nb =
     (case candidate (step_size p) (state (h ! nb)) sample of
        Return new \<Rightarrow>
          if check_for_collision p new then (Return None, h)
          else (Return (Some (length h)), snd (add_child h nb new))
      | Raises e \<Rightarrow> (Raises e, h)
      | Diverges \<Rightarrow> (Diverges, h))"
  by (cases "broadcast fsub sample (state (h ! nb))")
     (auto simp: extend_sample_def candidate_def Let_def add_child_eq split: outcome.splits)

text \<open>
  C3, as the code has it: when the sample coincides exactly with the state of its
  nearest neighbour (both without \<open>NaN\<close>), \<^verbatim>\<open>_extend_sample\<close> raises nothing; the
  candidate state it computes has \<open>NaN\<close> in every component, and unless the collision
  constraint rejects that candidate, a node holding it is created and appended to the
  neighbour's children. Only a rejected candidate leaves the tree unchanged.
\<close>

theorem extend_sample_coinciding:
  assumes "is_finite sample" and "state (h ! nb) = sample" and "nb < length h"
  shows "\<exists>res h'. extend_sample p h sample nb = (Return res, h') \<and>
           (if check_for_collision p (replicate (length sample) NaN)
            then res = None \<and> h' = h
            else res = Some (length h) \<and> length h' = Suc (length h) \<and>
                 h' ! length h =
                   \<lparr>state = replicate (length sample) NaN, parent = Some nb, children = []\<rparr> \<and>
                 children (h' ! nb) = children (h ! nb) @ [length h])"
proof -
  from assms(1) obtain x where x: "sample = map Fin x"
    by (auto simp: is_finite_iff)
  have "candidate (step_size p) (state (h ! nb)) sample = Return (replicate (length sample) NaN)"
    using candidate_degenerate [of "step_size p" x] assms(2) x by simp
  then show ?thesis
    using assms(3) by (simp add: extend_sample_eq add_child_new add_child_children)
qed

lemmas example_defs =
  example_planner_def init_heap_def extend_sample_def broadcast_def fnorm_def
  check_for_collision_def add_child_def new_Node_def is_finite_def

text \<open>
  C3 as stated fails: with no collision constraint, a sample equal to the root's state
  makes the extension return a new node (with a \<open>NaN\<close> state) and changes the tree.
\<close>

theorem extend_sample_coinciding_counterexample:
  "extend_sample (example_planner None) (init_heap [0] [0]) [Fin 0] 0 =
     (Return (Some 2),
      [\<lparr>state = [Fin 0], parent = None, children = [2]\<rparr>,
       \<lparr>state = [Fin 0], parent = None, children = []\<rparr>,
       \<lparr>state = [NaN], parent = Some 0, children = []\<rparr>])"
  by (simp add: example_defs)

theorem extend_sample_coinciding_witness:
  "is_finite [Fin 3, Fin 4] \<and> state (init_heap [3, 4] [0, 0] ! 0) = [Fin 3, Fin 4] \<and>
   extend_sample (example_planner None) (init_heap [3, 4] [0, 0]) [Fin 3, Fin 4] 0 =
     (Return (Some 2),
      [\<lparr>state = [Fin 3, Fin 4], parent = None, children = [2]\<rparr>,
       \<lparr>state = [Fin 0, Fin 0], parent = None, children = []\<rparr>,
       \<lparr>state = [NaN, NaN], parent = Some 0, children = []\<rparr>]) \<and>
   extend_sample (example_planner (Some is_finite)) (init_heap [3, 4] [0, 0]) [Fin 3, Fin 4] 0 =
     (Return None, init_heap [3, 4] [0, 0])"
  using extend_sample_coinciding [of "[Fin 3, Fin 4]" "init_heap [3, 4] [0, 0]" 0 "example_planner None"]
    extend_sample_coinciding [of "[Fin 3, Fin 4]" "init_heap [3, 4] [0, 0]" 0
      "example_planner (Some is_finite)"]
  by (simp add: example_defs)

text \<open>
  C8, as the code has it: \<^verbatim>\<open>__init__\<close> validates nothing. Whatever the dimensions of
  start, goal and bounds, the step size and the iteration count are, construction
  succeeds and stores them unchanged, unless a bounds argument is a numpy array of more
  than one element. An iteration count that is not positive makes \<^verbatim>\<open>build\<close> return
  \<^verbatim>\<open>None\<close> without a single pass.
\<close>

theorem init_accepts:
  assumes "\<not> multi_element lo" and "\<not> multi_element hi"
  shows "\<exists>p. init s g lo hi c st pr mi = Return (p, init_heap s g) \<and>
           step_size p = st \<and> goal_precision p = pr \<and> max_iter p = mi \<and>
           (mi \<le> 0 \<longrightarrow> build p r (init_heap s g) pos = (Return None, init_heap s g, pos, 0))"
  using assms by (simp add: init_eq build_def)

text \<open>
  C8 as stated fails: a start of one joint, a goal of two, upper bounds of three, the six
  default lower bounds, a negative step size and a negative iteration count are accepted.
\<close>

theorem init_accepts_counterexample:
  "init [0] [0, 0] PyNone (PyList [1, 2, 3]) None (- 1) 1 (- 5) =
     Return (\<lparr>start = 0, goal = 1, joint_lower_limits = default_lower_limits,
              joint_upper_limits = [1, 2, 3], ada_collision_constraint = None,
              step_size = - 1, goal_precision = 1, max_iter = - 5\<rparr>,
             init_heap [0] [0, 0])"
  by (simp add: init_eq multi_element_def falsy_def)

theorem init_accepts_witness:
  "\<not> multi_element (PyList [0, 0]) \<and> \<not> multi_element PyNone \<and>
   init [0, 0, 0] [1] (PyList [0, 0]) PyNone None 0 1 0 =
     Return (\<lparr>start = 0, goal = 1, joint_lower_limits = [0, 0],
              joint_upper_limits = default_upper_limits, ada_collision_constraint = None,
              step_size = 0, goal_precision = 1, max_iter = 0\<rparr>,
             init_heap [0, 0, 0] [1]) \<and>
   build \<lparr>start = 0, goal = 1, joint_lower_limits = [0, 0],
          joint_upper_limits = default_upper_limits, ada_collision_constraint = None,
          step_size = 0, goal_precision = 1, max_iter = 0\<rparr> (\<lambda>i. 0) (init_heap [0, 0, 0] [1]) 0 =
     (Return None, init_heap [0, 0, 0] [1], 0, 0)"
  using init_accepts [of "PyList [0, 0]" PyNone "[0, 0, 0]" "[1]" None 0 1 0 "\<lambda>i. 0" 0]
  by (simp add: init_eq multi_element_def falsy_def build_def)

section \<open>Nearest neighbour\<close>

lemma min_loop_Return:
  assumes "min_loop key best bk ys = Return b"
    and "key best = Return bk"
    and "\<forall>x\<in>set us. key x \<noteq> Return bk"
    and "\<forall>x\<in>set (us @ ws). \<exists>k. key x = Return k \<and> \<not> fless k bk"
  shows "\<exists>us' vs' kb. us @ best # ws @ ys = us' @ b # vs' \<and> key b = Return kb \<and>
           (\<forall>x\<in>set us'. key x \<noteq> Return kb) \<and>
           (\<forall>x\<in>set (us @ best # ws @ ys). \<exists>k. key x = Return k \<and> \<not> fless k kb)"
  using assms
proof (induction ys arbitrary: best bk us ws)
  case Nil
  then have b: "b = best" by simp
  have "\<not> fless bk bk" by (cases bk) simp_all
  with Nil b show ?case by (intro exI [of _ us] exI [of _ ws] exI [of _ bk]) auto
next
  case (Cons y ys)
  from Cons.prems(1) obtain k where k: "key y = Return k"
    and rest: "(if fless k bk then min_loop key y k ys else min_loop key best bk ys) = Return b"
    by (auto simp: obind_eq_Return)
  have nn: "\<not> fless bk bk" by (cases bk) simp_all
  show ?case
  proof (cases "fless k bk")
    case True
    then obtain kr br where kr: "k = Fin kr" "bk = Fin br" "kr < br"
      by (cases k; cases bk) simp_all
    have a: "\<forall>x\<in>set (us @ best # ws). key x \<noteq> Return k"
    proof
      fix x assume "x \<in> set (us @ best # ws)"
      then have "\<exists>k'. key x = Return k' \<and> \<not> fless k' bk"
        using Cons.prems(2,4) nn by auto
      then obtain k' where k': "key x = Return k'" "\<not> fless k' bk" by blast
      then have "k' \<noteq> k" using True by auto
      with k' show "key x \<noteq> Return k" by simp
    qed
    have b: "\<forall>x\<in>set ((us @ best # ws) @ []). \<exists>k'. key x = Return k' \<and> \<not> fless k' k"
    proof
      fix x assume "x \<in> set ((us @ best # ws) @ [])"
      then have "\<exists>k'. key x = Return k' \<and> \<not> fless k' bk"
        using Cons.prems(2,4) nn by auto
      then obtain k' where k': "key x = Return k'" "\<not> fless k' bk" by blast
      then have "\<not> fless k' k" using kr by (cases k') auto
      with k' show "\<exists>k'. key x = Return k' \<and> \<not> fless k' k" by simp
    qed
    from rest True have "min_loop key y k ys = Return b" by simp
    from Cons.IH [OF this k a b] show ?thesis by simp
  next
    case False
    have b: "\<forall>x\<in>set (us @ (ws @ [y])). \<exists>k. key x = Return k \<and> \<not> fless k bk"
      using Cons.prems(4) k False by auto
    from rest False have "min_loop key best bk ys = Return b" by simp
    from Cons.IH [OF this Cons.prems(2) Cons.prems(3) b] show ?thesis by simp
  qed
qed

lemma min_key_Return:
  assumes "min_key key xs = Return b"
  shows "\<exists>us vs kb. xs = us @ b # vs \<and> key b = Return kb \<and>
           (\<forall>x\<in>set us. key x \<noteq> Return kb) \<and>
           (\<forall>x\<in>set xs. \<exists>k. key x = Return k \<and> \<not> fless k kb)"
proof (cases xs)
  case Nil
  with assms show ?thesis by simp
next
  case (Cons x ys)
  with assms obtain k where k: "key x = Return k" and l: "min_loop key x k ys = Return b"
    by (auto simp: obind_eq_Return)
  from min_loop_Return [OF l k, of "[]" "[]"] Cons show ?thesis by simp
qed

lemma min_loop_other:
  "min_loop key best bk ys = Raises e \<Longrightarrow> \<exists>x\<in>set ys. key x = Raises e"
  "min_loop key best bk ys = Diverges \<Longrightarrow> \<exists>x\<in>set ys. key x = Diverges"
proof (induction ys arbitrary: best bk)
  case Nil
  {
    case 1
    then show ?case by simp
  next
    case 2
    then show ?case by simp
  }
next
  case (Cons y ys)
  {
    case 1
    show ?case
    proof (cases "key y")
      case (Return k)
      with 1 have "min_loop key (if fless k bk then y else best) (if fless k bk then k else bk) ys
                     = Raises e"
        by (simp split: if_splits)
      from Cons.IH(1) [OF this] show ?thesis by auto
    next
      case (Raises e')
      with 1 show ?thesis by auto
    next
      case Diverges
      with 1 show ?thesis by auto
    qed
  next
    case 2
    show ?case
    proof (cases "key y")
      case (Return k)
      with 2 have "min_loop key (if fless k bk then y else best) (if fless k bk then k else bk) ys
                     = Diverges"
        by (simp split: if_splits)
      from Cons.IH(2) [OF this] show ?thesis by auto
    next
      case (Raises e')
      with 2 show ?thesis by auto
    next
      case Diverges
      with 2 show ?thesis by auto
    qed
  }
qed


lemma min_key_Diverges:
  assumes "min_key key xs = Diverges" and "xs \<noteq> []"
  shows "\<exists>x\<in>set xs. key x = Diverges"
proof -
  from assms(2) obtain x ys where xs: "xs = x # ys" by (cases xs) auto
  show ?thesis
  proof (cases "key x")
    case (Return k)
    with assms xs have "min_loop key x k ys = Diverges" by simp
    from min_loop_other(2) [OF this] xs show ?thesis by auto
  next
    case (Raises e')
    with assms xs show ?thesis by auto
  next
    case Diverges
    with assms xs show ?thesis by auto
  qed
qed

section \<open>The tree\<close>

lemma node_iter_Nil [simp]: "node_iter h [] = Some []"
  by (subst node_iter.simps) simp

lemma node_iter_Cons:
  "node_iter h (n # rest) =
     Option.bind (node_iter h (rest @ children (h ! n))) (\<lambda>ys. Some (n # ys))"
  by (subst node_iter.simps) simp

lemma wf_child_rel: "wf {(c, a). a < c \<and> c < (n::nat)}"
  by (rule wf_subset [OF wf_measure [of "\<lambda>x. n - x"]]) auto

lemma node_iter_total:
  assumes ch: "\<forall>a<length h. \<forall>c\<in>set (children (h ! a)). a < c \<and> c < length h"
    and cl: "\<And>a c. a < length h \<Longrightarrow> P a \<Longrightarrow> c \<in> set (children (h ! a)) \<Longrightarrow> P c"
  shows "\<forall>a\<in>set q. a < length h \<and> P a \<Longrightarrow>
           \<exists>ns. node_iter h q = Some ns \<and> (\<forall>n\<in>set ns. n < length h \<and> P n)"
proof (induction "mset q" arbitrary: q
    rule: wf_induct_rule [OF wf_mult [OF wf_child_rel [of "length h"]]])
  case less: 1
  show ?case
  proof (cases q)
    case Nil
    then show ?thesis by simp
  next
    case (Cons a rest)
    let ?cs = "children (h ! a)"
    have a: "a < length h" "P a" using less.prems Cons by simp_all
    have k0: "\<forall>k\<in>set ?cs. a < k \<and> k < length h"
      using ch a(1) by blast
    have k: "\<forall>k\<in>#mset ?cs. \<exists>j\<in>#{#a#}. (k, j) \<in> {(c, a). a < c \<and> c < length h}"
      using k0 by simp
    have "(mset rest + mset ?cs, mset rest + {#a#}) \<in> mult {(c, a). a < c \<and> c < length h}"
      by (rule one_step_implies_mult [OF _ k]) simp
    then have dec: "(mset (rest @ ?cs), mset q) \<in> mult {(c, a). a < c \<and> c < length h}"
      using Cons by simp
    have "\<forall>b\<in>set ?cs. P b"
      using cl [OF a] by blast
    with k0 have "\<forall>b\<in>set (rest @ ?cs). b < length h \<and> P b"
      using less.prems Cons by auto
    from less.hyps [OF dec this] obtain ys
      where ys: "node_iter h (rest @ ?cs) = Some ys" "\<forall>n\<in>set ys. n < length h \<and> P n"
      by blast
    then show ?thesis using Cons a by (simp add: node_iter_Cons)
  qed
qed

lemma tree_invI:
  assumes "start p < length h" and "goal p < length h" and "start p \<noteq> goal p"
    and "parent (h ! start p) = None"
    and "\<And>a c. a < length h \<Longrightarrow> c \<in> set (children (h ! a)) \<Longrightarrow>
           a < c \<and> c < length h \<and> c \<noteq> goal p \<and> a \<noteq> goal p"
    and "\<And>c. c < length h \<Longrightarrow> c \<noteq> start p \<Longrightarrow> c \<noteq> goal p \<Longrightarrow>
           \<exists>a<c. parent (h ! c) = Some a \<and> a \<noteq> goal p"
  shows "tree_inv p h"
  unfolding tree_inv_def using assms by blast

lemma tree_inv_init_heap:
  assumes "start p = 0" and "goal p = 1"
  shows "tree_inv p (init_heap s g)"
proof (rule tree_invI)
  fix a c assume "a < length (init_heap s g)" "c \<in> set (children (init_heap s g ! a))"
  then show "a < c \<and> c < length (init_heap s g) \<and> c \<noteq> goal p \<and> a \<noteq> goal p"
    by (cases a) (simp_all add: init_heap_def)
next
  fix c assume "c < length (init_heap s g)" "c \<noteq> start p" "c \<noteq> goal p"
  then show "\<exists>a<c. parent (init_heap s g ! c) = Some a \<and> a \<noteq> goal p"
    using assms by (simp add: init_heap_def)
qed (simp_all add: assms init_heap_def)

lemma init_tree_inv:
  "init s g lo hi c st pr mi = Return (p, h0) \<Longrightarrow> tree_inv p h0"
proof -
  assume "init s g lo hi c st pr mi = Return (p, h0)"
  then have "start p = 0" "goal p = 1" "h0 = init_heap s g"
    by (auto simp: init_eq split: if_splits)
  then show ?thesis by (simp add: tree_inv_init_heap)
qed

lemma tree_nodes:
  assumes "tree_inv p h"
  shows "\<exists>ns. node_iter h [start p] = Some ns \<and> (\<forall>n\<in>set ns. n < length h \<and> n \<noteq> goal p)"
proof (rule node_iter_total)
  show "\<forall>a<length h. \<forall>c\<in>set (children (h ! a)). a < c \<and> c < length h"
    using assms unfolding tree_inv_def by blast
  show "\<And>a c. a < length h \<Longrightarrow> a \<noteq> goal p \<Longrightarrow> c \<in> set (children (h ! a)) \<Longrightarrow> c \<noteq> goal p"
    using assms unfolding tree_inv_def by blast
  have "start p < length h \<and> start p \<noteq> goal p"
    using assms unfolding tree_inv_def by blast
  then show "\<forall>a\<in>set [start p]. a < length h \<and> a \<noteq> goal p"
    by simp
qed

lemma nearest_in_tree:
  assumes "tree_inv p h" and "get_nearest_neighbor p h sample = Return nb"
  shows "nb < length h \<and> nb \<noteq> goal p"
proof -
  from tree_nodes [OF assms(1)] obtain ns
    where ns: "node_iter h [start p] = Some ns" "\<forall>n\<in>set ns. n < length h \<and> n \<noteq> goal p"
    by blast
  with assms(2) have "min_key (\<lambda>n. distance (state (h ! n)) sample) ns = Return nb"
    by (simp add: get_nearest_neighbor_def)
  from min_key_Return [OF this] have "nb \<in> set ns" by auto
  with ns(2) show ?thesis by blast
qed

lemma tree_inv_add_child:
  assumes inv: "tree_inv p h" and nb: "nb < length h" "nb \<noteq> goal p"
  shows "tree_inv p (snd (add_child h nb new))"
proof -
  let ?h = "snd (add_child h nb new)"
  have s: "start p < length h" "goal p < length h" "start p \<noteq> goal p"
    "parent (h ! start p) = None"
    using inv unfolding tree_inv_def by blast+
  have ch: "\<And>a c. a < length h \<Longrightarrow> c \<in> set (children (h ! a)) \<Longrightarrow>
              a < c \<and> c < length h \<and> c \<noteq> goal p \<and> a \<noteq> goal p"
    using inv unfolding tree_inv_def by blast
  have pa: "\<And>c. c < length h \<Longrightarrow> c \<noteq> start p \<Longrightarrow> c \<noteq> goal p \<Longrightarrow>
              \<exists>a<c. parent (h ! c) = Some a \<and> a \<noteq> goal p"
    using inv unfolding tree_inv_def by blast
  have 1: "parent (?h ! start p) = None"
    using s nb by (simp add: add_child_parent)
  have 2: "\<forall>a<length ?h. \<forall>c\<in>set (children (?h ! a)).
             a < c \<and> c < length ?h \<and> c \<noteq> goal p \<and> a \<noteq> goal p"
  proof (intro allI impI ballI)
    fix a c assume a: "a < length ?h" and c: "c \<in> set (children (?h ! a))"
    show "a < c \<and> c < length ?h \<and> c \<noteq> goal p \<and> a \<noteq> goal p"
    proof (cases "a = length h")
      case True
      with c nb show ?thesis by (simp add: add_child_new)
    next
      case False
      with a have al: "a < length h" by simp
      from c al nb have "c \<in> set (children (h ! a)) \<or> (a = nb \<and> c = length h)"
        by (auto simp: add_child_children split: if_splits)
      then show ?thesis
      proof
        assume "c \<in> set (children (h ! a))"
        from ch [OF al this] show ?thesis by simp
      next
        assume "a = nb \<and> c = length h"
        with nb s show ?thesis by auto
      qed
    qed
  qed
  have 3: "\<forall>c<length ?h. c \<noteq> start p \<longrightarrow> c \<noteq> goal p \<longrightarrow>
             (\<exists>a<c. parent (?h ! c) = Some a \<and> a \<noteq> goal p)"
  proof (intro allI impI)
    fix c assume c: "c < length ?h" "c \<noteq> start p" "c \<noteq> goal p"
    show "\<exists>a<c. parent (?h ! c) = Some a \<and> a \<noteq> goal p"
    proof (cases "c = length h")
      case True
      with nb show ?thesis by (simp add: add_child_new)
    next
      case False
      with c have cl: "c < length h" by simp
      from pa [OF cl c(2,3)] cl nb show ?thesis by (simp add: add_child_parent)
    qed
  qed
  have l: "start p < length ?h" "goal p < length ?h"
    using s by simp_all
  show ?thesis
    unfolding tree_inv_def using l s(3) 1 2 3 by blast
qed

lemma extend_sample_heap:
  assumes "extend_sample p h sample nb = (res, h')"
  shows "(h' = h \<and> (\<forall>c. res \<noteq> Return (Some c))) \<or>
         (\<exists>new. candidate (step_size p) (state (h ! nb)) sample = Return new \<and>
                \<not> check_for_collision p new \<and> h' = snd (add_child h nb new) \<and>
                res = Return (Some (length h)))"
  using assms by (auto simp: extend_sample_eq split: outcome.splits if_splits)

lemma reachable_tree_inv:
  assumes "reachable p h0 h" and "tree_inv p h0"
  shows "tree_inv p h"
  using assms
proof (induction rule: reachable.induct)
  case reach_init
  then show ?case .
next
  case (reach_extend h sample nb res h')
  then have inv: "tree_inv p h" by simp
  from nearest_in_tree [OF inv reach_extend(2)] have nb: "nb < length h" "nb \<noteq> goal p"
    by simp_all
  from extend_sample_heap [OF reach_extend(3)] show ?case
    using inv tree_inv_add_child [OF inv nb] by auto
qed

lemma reachable_collision_free:
  assumes "reachable p h0 h" and "tree_inv p h0" and "length h0 = 2"
  shows "\<forall>c<length h. c \<noteq> start p \<longrightarrow> c \<noteq> goal p \<longrightarrow> \<not> check_for_collision p (state (h ! c))"
  using assms
proof (induction rule: reachable.induct)
  case reach_init
  have "start p < 2" "goal p < 2" "start p \<noteq> goal p"
    using reach_init unfolding tree_inv_def by metis+
  then have "\<And>c. c < 2 \<Longrightarrow> c \<noteq> start p \<Longrightarrow> c \<noteq> goal p \<Longrightarrow> False"
    by arith
  then show ?case using reach_init(2) by auto
next
  case (reach_extend h sample nb res h')
  then have inv: "tree_inv p h" by (simp add: reachable_tree_inv)
  from nearest_in_tree [OF inv reach_extend(2)] have nb: "nb < length h" "nb \<noteq> goal p"
    by simp_all
  have IH: "\<forall>c<length h. c \<noteq> start p \<longrightarrow> c \<noteq> goal p \<longrightarrow> \<not> check_for_collision p (state (h ! c))"
    using reach_extend by simp
  from extend_sample_heap [OF reach_extend(3)] show ?case
  proof
    assume "h' = h \<and> (\<forall>c. res \<noteq> Return (Some c))"
    with IH show ?thesis by simp
  next
    assume "\<exists>new. candidate (step_size p) (state (h ! nb)) sample = Return new \<and>
                \<not> check_for_collision p new \<and> h' = snd (add_child h nb new) \<and>
                res = Return (Some (length h))"
    then obtain new where new: "\<not> check_for_collision p new" "h' = snd (add_child h nb new)"
      by blast
    show ?thesis
    proof (intro allI impI)
      fix c assume c: "c < length h'" "c \<noteq> start p" "c \<noteq> goal p"
      show "\<not> check_for_collision p (state (h' ! c))"
      proof (cases "c = length h")
        case True
        with new nb show ?thesis by (simp add: add_child_new)
      next
        case False
        with c new have "c < length h" by simp
        with IH c new nb show ?thesis by (simp add: add_child_state)
      qed
    qed
  qed
qed

section \<open>Nearest neighbour and collisions on reachable trees\<close>

lemma distance_not_Diverges: "distance u v \<noteq> Diverges"
  by (simp add: distance_def broadcast_def)

lemma example_init:
  "init [0] [0] (PyList [0]) (PyList [2]) c (1/4) 1 1 = Return (example_planner c, init_heap [0] [0])"
  by (simp add: init_eq multi_element_def falsy_def example_planner_def)

lemma node_iter_simps:
  "node_iter h [] = Some []"
  "node_iter h (n # rest) =
     Option.bind (node_iter h (rest @ children (h ! n))) (\<lambda>ys. Some (n # ys))"
  by (simp_all add: node_iter_Cons)

lemma fnorm_single: "fnorm [Fin a] = Fin \<bar>a\<bar>"
  by (simp add: fnorm_def)

lemma distance_single: "distance [Fin a] [Fin b] = Return (Fin \<bar>a - b\<bar>)"
  by (simp add: distance_def broadcast_def fnorm_single)

lemma example_nearest:
  "get_nearest_neighbor (example_planner c) (init_heap [0] [0]) [Fin 1] = Return 0"
  by (simp add: get_nearest_neighbor_def node_iter_simps example_planner_def init_heap_def
      distance_single)

lemma example_extend:
  "\<not> check_for_collision (example_planner c) [Fin (1 / 4)] \<Longrightarrow>
   extend_sample (example_planner c) (init_heap [0] [0]) [Fin 1] 0 = (Return (Some 2), example_tree)"
  by (simp add: extend_sample_def broadcast_def fnorm_single example_planner_def init_heap_def
      example_tree_def add_child_def new_Node_def)

lemma example_reachable:
  "\<not> check_for_collision (example_planner c) [Fin (1 / 4)] \<Longrightarrow>
   reachable (example_planner c) (init_heap [0] [0]) example_tree"
  by (rule reach_extend [OF reach_init example_nearest example_extend])

lemma example_tree_nodes: "node_iter example_tree [0] = Some [0, 2]"
  by (simp add: node_iter_simps example_tree_def)

text \<open>
  C5, as the code has it: on every reachable tree, no node of the traversal other than
  the start node has a state the collision constraint rejects; an extension whose
  candidate is rejected returns \<^verbatim>\<open>None\<close> and leaves the heap unchanged; and without a
  constraint no candidate is rejected. The start node is created by \<^verbatim>\<open>__init__\<close> without
  consulting the constraint.
\<close>

theorem collision_respect:
  assumes "init s g lo hi c st pr mi = Return (p, h0)" and "reachable p h0 h"
  shows "\<exists>nodes. node_iter h [start p] = Some nodes \<and>
           (\<forall>n\<in>set nodes. n \<noteq> start p \<longrightarrow> \<not> check_for_collision p (state (h ! n))) \<and>
           (\<forall>sample nb new.
              candidate (step_size p) (state (h ! nb)) sample = Return new \<longrightarrow>
              check_for_collision p new \<longrightarrow>
              extend_sample p h sample nb = (Return None, h)) \<and>
           (ada_collision_constraint p = None \<longrightarrow> (\<forall>v. \<not> check_for_collision p v))"
proof -
  have inv0: "tree_inv p h0"
    using assms(1) by (rule init_tree_inv)
  have len: "length h0 = 2"
    using assms(1) by (auto simp: init_eq init_heap_def split: if_splits)
  have inv: "tree_inv p h"
    using assms(2) inv0 by (rule reachable_tree_inv)
  from tree_nodes [OF inv] obtain nodes
    where nodes: "node_iter h [start p] = Some nodes"
      and sub: "\<forall>n\<in>set nodes. n < length h \<and> n \<noteq> goal p"
    by blast
  have free: "\<forall>c<length h. c \<noteq> start p \<longrightarrow> c \<noteq> goal p \<longrightarrow>
                \<not> check_for_collision p (state (h ! c))"
    using assms(2) inv0 len by (rule reachable_collision_free)
  have 1: "\<forall>n\<in>set nodes. n \<noteq> start p \<longrightarrow> \<not> check_for_collision p (state (h ! n))"
    using sub free by blast
  have 2: "\<forall>sample nb new.
              candidate (step_size p) (state (h ! nb)) sample = Return new \<longrightarrow>
              check_for_collision p new \<longrightarrow>
              extend_sample p h sample nb = (Return None, h)"
    by (simp add: extend_sample_eq)
  have 3: "ada_collision_constraint p = None \<longrightarrow> (\<forall>v. \<not> check_for_collision p v)"
    by (simp add: check_for_collision_def)
  show ?thesis
    by (rule exI [of _ nodes]) (intro conjI nodes 1 2 3)
qed

text \<open>
  C5 as stated fails at the root: with a constraint that rejects every state, the tree
  right after construction contains the start node, whose state is in collision.
\<close>

theorem collision_respect_counterexample:
  "init [0] [0] (PyList [0]) (PyList [2]) (Some reject_all) (1/4) 1 1 =
     Return (example_planner (Some reject_all), init_heap [0] [0]) \<and>
   node_iter (init_heap [0] [0]) [start (example_planner (Some reject_all))] = Some [0] \<and>
   check_for_collision (example_planner (Some reject_all)) (state (init_heap [0] [0] ! 0))"
  by (simp add: example_init node_iter_simps)
     (simp add: example_planner_def init_heap_def check_for_collision_def reject_all_def)

theorem collision_respect_witness:
  "init [0] [0] (PyList [0]) (PyList [2]) (Some is_finite) (1/4) 1 1 =
     Return (example_planner (Some is_finite), init_heap [0] [0]) \<and>
   reachable (example_planner (Some is_finite)) (init_heap [0] [0]) example_tree \<and>
   node_iter example_tree [start (example_planner (Some is_finite))] = Some [0, 2] \<and>
   \<not> check_for_collision (example_planner (Some is_finite)) (state (example_tree ! 2)) \<and>
   candidate (step_size (example_planner (Some is_finite))) (state (example_tree ! 2)) [Fin (1 / 4)]
     = Return [NaN] \<and>
   check_for_collision (example_planner (Some is_finite)) [NaN] \<and>
   extend_sample (example_planner (Some is_finite)) example_tree [Fin (1 / 4)] 2
     = (Return None, example_tree)"
proof -
  have r: "reachable (example_planner (Some is_finite)) (init_heap [0] [0]) example_tree"
    by (rule example_reachable)
       (simp add: check_for_collision_def example_planner_def is_finite_def)
  have s: "start (example_planner (Some is_finite)) = 0"
    by (simp add: example_planner_def)
  have c: "candidate (step_size (example_planner (Some is_finite))) (state (example_tree ! 2))
             [Fin (1 / 4)] = Return [NaN]"
    by (simp add: candidate_def broadcast_def fnorm_single example_tree_def)
  have k: "check_for_collision (example_planner (Some is_finite)) [NaN]"
    by (simp add: check_for_collision_def example_planner_def is_finite_def)
  have n: "\<not> check_for_collision (example_planner (Some is_finite)) (state (example_tree ! 2))"
    by (simp add: check_for_collision_def example_planner_def is_finite_def example_tree_def)
  show ?thesis
    using collision_respect [OF example_init [of "Some is_finite"] r] c k
    by (simp add: example_init r s example_tree_nodes n)
qed

section \<open>Walking to the root, and sampling\<close>

lemma parent_walk_simps:
  "parent_walk h None = Some []"
  "parent_walk h (Some n) = Option.bind (parent_walk h (parent (h ! n))) (\<lambda>w. Some (n # w))"
  by (subst parent_walk.simps, simp)+

lemma trace_loop_simps:
  "trace_loop h None path = Some path"
  "trace_loop h (Some n) path = trace_loop h (parent (h ! n)) (path @ [state (h ! n)])"
  by (subst trace_loop.simps, simp)+

lemma walk_to_start:
  assumes inv: "tree_inv p h"
  shows "c < length h \<Longrightarrow> c \<noteq> goal p \<Longrightarrow>
           \<exists>w. parent_walk h (Some c) = Some (c # w) \<and>
               (\<forall>acc. trace_loop h (Some c) acc = Some (acc @ map (\<lambda>a. state (h ! a)) (c # w))) \<and>
               last (c # w) = start p \<and> (\<forall>x\<in>set w. x < c) \<and> distinct (c # w) \<and>
               chain h (c # w) \<and> (c \<noteq> start p \<longrightarrow> w \<noteq> [])"
proof (induction c rule: less_induct)
  case (less c)
  show ?case
  proof (cases "c = start p")
    case True
    have "parent (h ! c) = None"
      using inv True unfolding tree_inv_def by blast
    then show ?thesis
      using True by (simp add: parent_walk_simps trace_loop_simps)
  next
    case False
    have "\<exists>a<c. parent (h ! c) = Some a \<and> a \<noteq> goal p"
      using inv less.prems False unfolding tree_inv_def by blast
    then obtain a where a: "a < c" "parent (h ! c) = Some a" "a \<noteq> goal p" by blast
    have al: "a < length h" using a(1) less.prems(1) by simp
    from less.IH [OF a(1) al a(3)] obtain w
      where w: "parent_walk h (Some a) = Some (a # w)"
        and t: "\<forall>acc. trace_loop h (Some a) acc = Some (acc @ map (\<lambda>a. state (h ! a)) (a # w))"
        and l: "last (a # w) = start p" and b: "\<forall>x\<in>set w. x < a"
        and d: "distinct (a # w)" and ch: "chain h (a # w)"
      by blast
    have 1: "parent_walk h (Some c) = Some (c # a # w)"
      using a(2) w by (simp add: parent_walk_simps)
    have 2: "\<forall>acc. trace_loop h (Some c) acc = Some (acc @ map (\<lambda>a. state (h ! a)) (c # a # w))"
    proof
      fix acc
      from t have f: "trace_loop h (Some a) (acc @ [state (h ! c)]) =
                        Some ((acc @ [state (h ! c)]) @ map (\<lambda>a. state (h ! a)) (a # w))"
        by blast
      show "trace_loop h (Some c) acc = Some (acc @ map (\<lambda>a. state (h ! a)) (c # a # w))"
        unfolding trace_loop_simps(2) [of h c acc] a(2) using f by simp
    qed
    have 3: "\<forall>x\<in>set (a # w). x < c"
      using a(1) b by auto
    then have 4: "distinct (c # a # w)"
      using d by auto
    have 5: "chain h (c # a # w)"
      using a(2) ch by simp
    have 6: "last (c # a # w) = start p"
      using l by simp
    show ?thesis
      by (rule exI [of _ "a # w"]) (intro conjI 1 2 3 4 5 6, simp)
  qed
qed


lemma draw_sample_eq:
  "draw_sample p h r pos =
     (if r pos \<le> 0.2 then get_random_sample_near_goal p h r (Suc pos)
      else (Return (fst (get_random_sample p r (Suc pos))), snd (get_random_sample p r (Suc pos))))"
  by (simp add: draw_sample_def uniform_def split: prod.splits)

lemma build_step_eq:
  "build_step p r h pos =
     (case draw_sample p h r pos of
        (Raises e, pos2) \<Rightarrow> (Raises e, h, pos2)
      | (Diverges, pos2) \<Rightarrow> (Diverges, h, pos2)
      | (Return sample, pos2) \<Rightarrow>
          (case get_nearest_neighbor p h sample of
             Raises e \<Rightarrow> (Raises e, h, pos2)
           | Diverges \<Rightarrow> (Diverges, h, pos2)
           | Return neighbor \<Rightarrow>
              (case extend_sample p h sample neighbor of
                 (Raises e, h') \<Rightarrow> (Raises e, h', pos2)
               | (Diverges, h') \<Rightarrow> (Diverges, h', pos2)
               | (Return None, h') \<Rightarrow> (Return None, h', pos2)
               | (Return (Some new_node), h') \<Rightarrow>
                  (case check_for_completion p h' new_node of
                     Raises e \<Rightarrow> (Raises e, h', pos2)
                   | Diverges \<Rightarrow> (Diverges, h', pos2)
                   | Return False \<Rightarrow> (Return None, h', pos2)
                   | Return True \<Rightarrow>
                      (case trace_path_from_start p h' (Some new_node) of
                         None \<Rightarrow> (Diverges, h', pos2)
                       | Some path \<Rightarrow> (Return (Some path), h', pos2))))))"
  by (simp add: build_step_def draw_sample_def Let_def split: prod.splits)

section \<open>A run of the example planner\<close>

lemma init_fields:
  assumes "init s g lo hi c st pr mi = Return (p, h0)"
  shows "h0 = init_heap s g" and "start p = 0" and "goal p = 1" and "step_size p = st"
    and "goal_precision p = pr" and "max_iter p = mi" and "ada_collision_constraint p = c"
  using assms by (auto simp: init_eq split: if_splits)

lemma example_sample:
  "draw_sample (example_planner c) h (\<lambda>i. 1 / 2) pos = (Return [Fin 1], Suc (Suc pos))"
  by (simp add: draw_sample_eq get_random_sample_def example_planner_def uniform_def)

lemma example_completion:
  "check_for_completion (example_planner c) example_tree 2 = Return True"
  by (simp add: check_for_completion_def example_planner_def example_tree_def distance_single)

lemma example_trace:
  "trace_path_from_start (example_planner c) example_tree (Some 2) = Some [[Fin 0], [Fin (1 / 4)]]"
  by (simp add: trace_path_from_start_def trace_loop_simps example_tree_def)

lemma example_step:
  "\<not> check_for_collision (example_planner c) [Fin (1 / 4)] \<Longrightarrow>
   build_step (example_planner c) (\<lambda>i. 1 / 2) (init_heap [0] [0]) pos =
     (Return (Some [[Fin 0], [Fin (1 / 4)]]), example_tree, Suc (Suc pos))"
  by (simp add: build_step_eq example_sample example_nearest example_extend example_completion
      example_trace)

lemma example_build:
  "\<not> check_for_collision (example_planner c) [Fin (1 / 4)] \<Longrightarrow>
   build (example_planner c) (\<lambda>i. 1 / 2) (init_heap [0] [0]) 0 =
     (Return (Some [[Fin 0], [Fin (1 / 4)]]), example_tree, 2, 1)"
proof -
  assume a: "\<not> check_for_collision (example_planner c) [Fin (1 / 4)]"
  have m: "nat (max_iter (example_planner c)) = Suc 0"
    by (simp add: example_planner_def)
  have st: "build_step (example_planner c) (\<lambda>i. 1 / 2) (init_heap [0] [0]) 0 =
     (Return (Some [[Fin 0], [Fin (1 / 4)]]), example_tree, Suc (Suc 0))"
    by (rule example_step [OF a])
  show ?thesis
    unfolding build_def m by (simp add: st)
qed

lemma example_free: "\<not> check_for_collision (example_planner None) v"
  by (simp add: check_for_collision_def example_planner_def)

section \<open>The loop never diverges\<close>

lemma broadcast_not_Diverges: "broadcast f u v \<noteq> Diverges"
  by (simp add: broadcast_def)

lemma draw_sample_not_Diverges: "fst (draw_sample p h r pos) \<noteq> Diverges"
  by (simp add: draw_sample_eq get_random_sample_near_goal_def broadcast_not_Diverges
      Let_def split: prod.splits)

lemma candidate_not_Diverges: "candidate st x s \<noteq> Diverges"
  by (cases "broadcast fsub s x") (simp_all add: candidate_def broadcast_not_Diverges)

lemma completion_not_Diverges: "check_for_completion p h t \<noteq> Diverges"
  by (cases "distance (state (h ! t)) (state (h ! goal p))")
     (simp_all add: check_for_completion_def distance_not_Diverges)

lemma nearest_not_Diverges:
  assumes "tree_inv p h"
  shows "get_nearest_neighbor p h sample \<noteq> Diverges"
proof
  assume d: "get_nearest_neighbor p h sample = Diverges"
  from tree_nodes [OF assms] obtain ns where ns: "node_iter h [start p] = Some ns" by blast
  have ne: "ns \<noteq> []"
    using ns by (auto simp: node_iter_Cons bind_eq_Some_conv)
  from d ns have "min_key (\<lambda>n. distance (state (h ! n)) sample) ns = Diverges"
    by (simp add: get_nearest_neighbor_def)
  from min_key_Diverges [OF this ne] show False
    using distance_not_Diverges by auto
qed

lemma traced_path_general:
  assumes inv: "tree_inv p h" and t: "t < length h" "t \<noteq> goal p" "t \<noteq> start p"
  shows "\<exists>path. trace_path_from_start p h (Some t) = Some path \<and> 2 \<le> length path \<and>
           hd path = state (h ! start p)"
proof -
  let ?st = "\<lambda>a. state (h ! a)"
  from walk_to_start [OF inv t(1,2)] t(3) obtain w
    where tr: "\<forall>acc. trace_loop h (Some t) acc = Some (acc @ map ?st (t # w))"
      and la: "last (t # w) = start p" and ne: "w \<noteq> []"
    by blast
  define path where "path = rev (map ?st (t # w))"
  have tp: "trace_path_from_start p h (Some t) = Some path"
    using tr unfolding path_def by (simp add: trace_path_from_start_def)
  have l: "2 \<le> length path"
    using ne unfolding path_def by (cases w) simp_all
  have "hd path = last (map ?st (t # w))"
    unfolding path_def by (rule hd_rev)
  also have "\<dots> = ?st (last (t # w))"
    by (rule last_map) simp
  finally have "hd path = ?st (start p)"
    using la by simp
  with tp l show ?thesis by blast
qed

lemma build_step_general:
  assumes inv: "tree_inv p h" and st: "state (h ! start p) = v"
    and step: "build_step p r h pos = (res, h', pos')"
  shows "tree_inv p h' \<and> state (h' ! start p) = v \<and> res \<noteq> Diverges \<and>
         (\<forall>path. res = Return (Some path) \<longrightarrow> 2 \<le> length path \<and> hd path = v)"
proof -
  obtain s0 q where dr: "draw_sample p h r pos = (s0, q)"
    by (cases "draw_sample p h r pos")
  have keep: "res \<noteq> Diverges \<Longrightarrow> (\<forall>path. res \<noteq> Return (Some path)) \<Longrightarrow> h' = h \<Longrightarrow> ?thesis"
    using inv st by simp
  show ?thesis
  proof (cases s0)
    case (Raises e)
    with dr step have "res = Raises e" "h' = h" by (simp_all add: build_step_eq)
    then show ?thesis by (intro keep) simp_all
  next
    case Diverges
    with dr draw_sample_not_Diverges [of p h r pos] show ?thesis by simp
  next
    case (Return sample)
    note s0 = this
    show ?thesis
    proof (cases "get_nearest_neighbor p h sample")
      case (Raises e)
      with dr s0 step have "res = Raises e" "h' = h" by (simp_all add: build_step_eq)
      then show ?thesis by (intro keep) simp_all
    next
      case Diverges
      with nearest_not_Diverges [OF inv] show ?thesis by simp
    next
      case (Return nb)
      note nn = this
      from nearest_in_tree [OF inv nn] have nb: "nb < length h" "nb \<noteq> goal p" by simp_all
      show ?thesis
      proof (cases "candidate (step_size p) (state (h ! nb)) sample")
        case (Raises e)
        then have "extend_sample p h sample nb = (Raises e, h)"
          by (simp add: extend_sample_eq)
        with dr s0 nn step have "res = Raises e" "h' = h" by (simp_all add: build_step_eq)
        then show ?thesis by (intro keep) simp_all
      next
        case Diverges
        with candidate_not_Diverges show ?thesis by blast
      next
        case (Return new)
        note c = this
        show ?thesis
        proof (cases "check_for_collision p new")
          case True
          with c have "extend_sample p h sample nb = (Return None, h)"
            by (simp add: extend_sample_eq)
          with dr s0 nn step have "res = Return None" "h' = h" by (simp_all add: build_step_eq)
          then show ?thesis by (intro keep) simp_all
        next
          case False
          define h1 where "h1 = snd (add_child h nb new)"
          define t where "t = length h"
          have ex: "extend_sample p h sample nb = (Return (Some t), h1)"
            using c False by (simp add: extend_sample_eq h1_def t_def)
          have inv1: "tree_inv p h1"
            unfolding h1_def using inv nb by (rule tree_inv_add_child)
          have gl: "goal p < length h" and sl: "start p < length h"
            using inv unfolding tree_inv_def by blast+
          have st1: "state (h1 ! start p) = v"
            using sl nb st by (simp add: h1_def add_child_state)
          have t1: "t < length h1" "t \<noteq> goal p" "t \<noteq> start p"
            using gl sl by (simp_all add: t_def h1_def)
          have keep1: "res \<noteq> Diverges \<Longrightarrow> (\<forall>path. res \<noteq> Return (Some path)) \<Longrightarrow> h' = h1 \<Longrightarrow> ?thesis"
            using inv1 st1 by simp
          show ?thesis
          proof (cases "check_for_completion p h1 t")
            case (Raises e)
            with dr s0 nn ex step have "res = Raises e" "h' = h1"
              by (simp_all add: build_step_eq)
            then show ?thesis by (intro keep1) simp_all
          next
            case Diverges
            with completion_not_Diverges show ?thesis by blast
          next
            case (Return b)
            show ?thesis
            proof (cases b)
              case False
              with Return dr s0 nn ex step have "res = Return None" "h' = h1"
                by (simp_all add: build_step_eq)
              then show ?thesis by (intro keep1) simp_all
            next
              case True
              from traced_path_general [OF inv1 t1] obtain path
                where tp: "trace_path_from_start p h1 (Some t) = Some path"
                  and l: "2 \<le> length path" "hd path = state (h1 ! start p)"
                by blast
              from True Return dr s0 nn ex tp step
              have "res = Return (Some path)" "h' = h1"
                by (simp_all add: build_step_eq)
              with inv1 st1 l show ?thesis by simp
            qed
          qed
        qed
      qed
    qed
  qed
qed

lemma build_loop_general:
  "tree_inv p h \<Longrightarrow> state (h ! start p) = v \<Longrightarrow>
   build_loop p r k h pos = (res, h', pos', n) \<Longrightarrow>
   tree_inv p h' \<and> state (h' ! start p) = v \<and> res \<noteq> Diverges \<and> n \<le> k \<and>
   (\<forall>path. res = Return (Some path) \<longrightarrow> 2 \<le> length path \<and> hd path = v)"
proof (induction k arbitrary: h pos res h' pos' n)
  case 0
  then show ?case by auto
next
  case (Suc k)
  obtain r1 h1 pos1 where st: "build_step p r h pos = (r1, h1, pos1)"
    by (cases "build_step p r h pos") auto
  from build_step_general [OF Suc.prems(1,2) st]
  have inv1: "tree_inv p h1" and s1: "state (h1 ! start p) = v" and nd: "r1 \<noteq> Diverges"
    and pa: "\<forall>path. r1 = Return (Some path) \<longrightarrow> 2 \<le> length path \<and> hd path = v"
    by blast+
  show ?case
  proof (cases "r1 = Return None")
    case True
    obtain r2 h2 pos2 n2 where lp: "build_loop p r k h1 pos1 = (r2, h2, pos2, n2)"
      by (cases "build_loop p r k h1 pos1") auto
    from Suc.prems(3) st True lp have eq: "res = r2" "h' = h2" "n = Suc n2"
      by simp_all
    from Suc.IH [OF inv1 s1 lp] show ?thesis
      unfolding eq by simp
  next
    case False
    with Suc.prems(3) st have eq: "res = r1" "h' = h1" "n = 1"
      by (auto split: outcome.splits option.splits)
    with inv1 s1 nd pa show ?thesis by simp
  qed
qed

section \<open>A rejected run, and the case of a start that already is the goal\<close>




text \<open>
  C9, as the code has it: when the goal state equals the start state, the root is not
  checked against the goal precision. A path is returned only for a node created by an
  extension, so every returned path begins with the start state and has at least two
  elements; with an iteration count that is not positive \<^verbatim>\<open>build\<close> returns \<^verbatim>\<open>None\<close>.
\<close>

theorem build_start_is_goal:
  assumes "init s s lo hi c st pr mi = Return (p, h0)"
  shows "(\<forall>path h pos' k. build p r h0 pos = (Return (Some path), h, pos', k) \<longrightarrow>
            2 \<le> length path \<and> hd path = map Fin s) \<and>
         (mi \<le> 0 \<longrightarrow> build p r h0 pos = (Return None, h0, pos, 0))"
proof -
  note F = init_fields [OF assms]
  have t0: "tree_inv p h0" using assms by (rule init_tree_inv)
  have s0: "state (h0 ! start p) = map Fin s"
    by (simp add: F init_heap_def)
  have 1: "\<forall>path h pos' k. build p r h0 pos = (Return (Some path), h, pos', k) \<longrightarrow>
            2 \<le> length path \<and> hd path = map Fin s"
  proof (intro allI impI)
    fix path h pos' k
    assume "build p r h0 pos = (Return (Some path), h, pos', k)"
    then have "build_loop p r (nat (max_iter p)) h0 pos = (Return (Some path), h, pos', k)"
      by (simp add: build_def)
    from build_loop_general [OF t0 s0 this]
    show "2 \<le> length path \<and> hd path = map Fin s" by simp
  qed
  have 2: "mi \<le> 0 \<longrightarrow> build p r h0 pos = (Return None, h0, pos, 0)"
    by (simp add: build_def F(6))
  from 1 2 show ?thesis by (rule conjI)
qed

text \<open>
  C9 as stated fails: with start and goal both at the origin, \<^verbatim>\<open>build\<close> returns the
  path of two states that its first extension produces, not the start state alone.
\<close>

theorem build_start_is_goal_counterexample:
  "init [0] [0] (PyList [0]) (PyList [2]) None (1/4) 1 1 =
     Return (example_planner None, init_heap [0] [0]) \<and>
   state (init_heap [0] [0] ! goal (example_planner None)) =
     state (init_heap [0] [0] ! start (example_planner None)) \<and>
   build (example_planner None) (\<lambda>i. 1 / 2) (init_heap [0] [0]) 0 =
     (Return (Some [[Fin 0], [Fin (1 / 4)]]), example_tree, 2, 1)"
  by (simp add: example_init example_build [OF example_free])
     (simp add: example_planner_def init_heap_def)

theorem build_start_is_goal_witness:
  "init [0] [0] (PyList [0]) (PyList [2]) (Some is_finite) (1/4) 1 1 =
     Return (example_planner (Some is_finite), init_heap [0] [0]) \<and>
   build (example_planner (Some is_finite)) (\<lambda>i. 1 / 2) (init_heap [0] [0]) 0 =
     (Return (Some [[Fin 0], [Fin (1 / 4)]]), example_tree, 2, 1) \<and>
   2 \<le> length [[Fin 0], [Fin (1 / 4)]] \<and> hd [[Fin 0], [Fin (1 / 4)]] = map Fin [0] \<and>
   init [3] [3] PyNone PyNone None (1/4) 1 0 =
     Return (\<lparr>start = 0, goal = 1, joint_lower_limits = default_lower_limits,
              joint_upper_limits = default_upper_limits, ada_collision_constraint = None,
              step_size = 1/4, goal_precision = 1, max_iter = 0\<rparr>, init_heap [3] [3]) \<and>
   build \<lparr>start = 0, goal = 1, joint_lower_limits = default_lower_limits,
          joint_upper_limits = default_upper_limits, ada_collision_constraint = None,
          step_size = 1/4, goal_precision = 1, max_iter = 0\<rparr> (\<lambda>i. 1 / 2) (init_heap [3] [3]) 0 =
     (Return None, init_heap [3] [3], 0, 0)"
proof -
  have a: "\<not> check_for_collision (example_planner (Some is_finite)) [Fin (1 / 4)]"
    by (simp add: check_for_collision_def example_planner_def is_finite_def)
  have i: "init [3] [3] PyNone PyNone None (1/4) 1 0 =
     Return (\<lparr>start = 0, goal = 1, joint_lower_limits = default_lower_limits,
              joint_upper_limits = default_upper_limits, ada_collision_constraint = None,
              step_size = 1/4, goal_precision = 1, max_iter = 0\<rparr>, init_heap [3] [3])"
    by (simp add: init_eq multi_element_def falsy_def)
  show ?thesis
    using build_start_is_goal [OF example_init [of "Some is_finite"], of "\<lambda>i. 1 / 2" 0]
      build_start_is_goal [OF i, of "\<lambda>i. 1 / 2" 0]
    by (simp add: example_init example_build [OF a] i)
qed

section \<open>The order of the traversal\<close>









section \<open>Parents and children on reachable trees\<close>








section \<open>The nearest neighbour on reachable trees\<close>











section \<open>The state of a new node\<close>





section \<open>Paths on reachable trees\<close>






section \<open>The returned path, and halting\<close>
















end
